theory Spec2Isabelle
  imports Main "HOL-Library.Word"
begin

section \<open>Bytes, slices and struct.unpack\<close>

text \<open>
  A Python \<open>bytes\<close>/\<open>bytearray\<close> value is a list of 8-bit words. Offsets, sizes and
  the unpacked header fields are Python integers that are never negative here, so they
  are natural numbers; nothing wraps around.
\<close>

type_synonym byte = "8 word"
type_synonym bytes = "byte list"

text \<open>\<open>buf[a:b]\<close> for \<open>0 \<le> a\<close>: the slice is cut short at the end of the buffer.\<close>

definition slice :: "bytes \<Rightarrow> nat \<Rightarrow> nat \<Rightarrow> bytes" where
  "slice buf a b = take (b - a) (drop a buf)"

datatype error =
    StructError
  | UnsupportedFormat nat nat
  | HeaderNotFound nat string

text \<open>
  \<open>struct.unpack('<I', b)\<close>: four bytes, little-endian, unsigned; any other length
  raises \<open>struct.error\<close>.
\<close>

fun unpack_I :: "bytes \<Rightarrow> error + nat" where
  "unpack_I [b0, b1, b2, b3] =
     Inr (unat b0 + 256 * unat b1 + 65536 * unat b2 + 16777216 * unat b3)"
| "unpack_I _ = Inl StructError"

text \<open>The two-byte field \<open>H\<close> of a little-endian format string.\<close>

definition le16 :: "byte \<Rightarrow> byte \<Rightarrow> nat" where
  "le16 b0 b1 = unat b0 + 256 * unat b1"

definition le32 :: "byte \<Rightarrow> byte \<Rightarrow> byte \<Rightarrow> byte \<Rightarrow> nat" where
  "le32 b0 b1 b2 b3 = unat b0 + 256 * unat b1 + 65536 * unat b2 + 16777216 * unat b3"

text \<open>The \<open>fmt\<close> dictionary built by the scanner, with its six keys.\<close>

record fmt =
  audio_format :: nat
  channels :: nat
  rate :: nat
  bits :: nat
  block_align :: nat
  byte_rate :: nat

text \<open>
  \<open>struct.unpack('<HHIIHH', b)\<close> on exactly 16 bytes, stored under the keys of the
  dictionary: the tuple is (audio_format, channels, rate, byte_rate, block_align, bits).
\<close>

fun unpack_HHIIHH :: "bytes \<Rightarrow> error + fmt" where
  "unpack_HHIIHH [a0, a1, c0, c1, r0, r1, r2, r3, y0, y1, y2, y3, k0, k1, t0, t1] =
     Inr \<lparr> audio_format = le16 a0 a1, channels = le16 c0 c1, rate = le32 r0 r1 r2 r3,
           bits = le16 t0 t1, block_align = le16 k0 k1, byte_rate = le32 y0 y1 y2 y3 \<rparr>"
| "unpack_HHIIHH _ = Inl StructError"

section \<open>The chunk scanner\<close>

definition tag_RIFF :: bytes where "tag_RIFF = [0x52, 0x49, 0x46, 0x46]"
definition tag_WAVE :: bytes where "tag_WAVE = [0x57, 0x41, 0x56, 0x45]"
definition tag_fmt :: bytes where "tag_fmt = [0x66, 0x6D, 0x74, 0x20]"
definition tag_data :: bytes where "tag_data = [0x64, 0x61, 0x74, 0x61]"

text \<open>An entry of \<open>found\<close>: (chunk id, start offset, declared size).\<close>

type_synonym chunk_desc = "bytes \<times> nat \<times> nat"

text \<open>The returned triple (found, fmt, data_off).\<close>

type_synonym scan_result = "chunk_desc list \<times> fmt option \<times> nat option"

text \<open>
  One pass through the body of the \<open>while\<close> loop at offset \<open>i\<close>, entered when
  \<open>i + 8 \<le> len(buf)\<close>: it either goes on at a new offset (\<open>continue\<close> or the end of
  the body), leaves the function (\<open>break\<close> falls to the final \<open>return\<close>, the
  \<open>data\<close> branch returns directly), or an unpack raises.
\<close>

datatype scan_step =
    Continue nat "fmt option" "chunk_desc list"
  | Return scan_result
  | Raise error

definition scan_body :: "bytes \<Rightarrow> nat \<Rightarrow> fmt option \<Rightarrow> chunk_desc list \<Rightarrow> scan_step" where
  "scan_body buf i fmt found =
     (let cid = slice buf i (i + 4) in
      if i + 8 > length buf then Return (found, fmt, None)
      else
        (case unpack_I (slice buf (i + 4) (i + 8)) of
           Inl e \<Rightarrow> Raise e
         | Inr csize \<Rightarrow>
             (let end = i + 8 + csize in
              if cid = tag_fmt then
                (if end > length buf then Return (found, fmt, None)
                 else if csize \<ge> 16 then
                   (case unpack_HHIIHH (slice buf (i + 8) (i + 8 + 16)) of
                      Inl e \<Rightarrow> Raise e
                    | Inr f \<Rightarrow> Continue end (Some f) (found @ [(cid, i, csize)]))
                 else Continue end fmt (found @ [(cid, i, csize)]))
              else if cid = tag_data then
                (if fmt = None then Return (found, fmt, None)
                 else Return (found @ [(cid, i, csize)], fmt, Some (i + 8)))
              else if end > length buf then Return (found, fmt, None)
              else Continue end fmt (found @ [(cid, i, csize)]))))"

function scan_loop :: "bytes \<Rightarrow> nat \<Rightarrow> fmt option \<Rightarrow> chunk_desc list \<Rightarrow> error + scan_result" where
  "scan_loop buf i fmt found =
     (if i + 8 \<le> length buf then
        (case scan_body buf i fmt found of
           Continue j fmt' found' \<Rightarrow> scan_loop buf j fmt' found'
         | Return r \<Rightarrow> Inr r
         | Raise e \<Rightarrow> Inl e)
      else Inr (found, fmt, None))"
  by pat_completeness auto
termination
proof (relation "measure (\<lambda>(buf, i, fmt, found). length buf - i)")
  show "wf (measure (\<lambda>(buf, i, fmt, found). length buf - i))" by simp
next
  fix buf :: bytes and i fmt found j fmt' found'
  assume "i + 8 \<le> length buf" and "scan_body buf i fmt found = Continue j fmt' found'"
  then have "i < j \<and> j \<le> length buf"
    by (auto simp: scan_body_def Let_def split: if_splits sum.splits)
  then show "((buf, j, fmt', found'), (buf, i, fmt, found))
             \<in> measure (\<lambda>(buf, i, fmt, found). length buf - i)"
    using \<open>i + 8 \<le> length buf\<close> by auto
qed

declare scan_loop.simps [simp del]

definition scan_chunks_streaming :: "bytes \<Rightarrow> error + scan_result" where
  "scan_chunks_streaming buf =
     (if length buf < 12 \<or> slice buf 0 4 \<noteq> tag_RIFF \<or> slice buf 8 12 \<noteq> tag_WAVE
      then Inr ([], None, None)
      else scan_loop buf 12 None [])"

section \<open>The format resolver\<close>

text \<open>
  \<open>dtype_for\<close>: a PCM code with a bit depth outside the four listed ones falls out of
  the first \<open>if\<close> and reaches the \<open>raise\<close>, which names the code and the bit depth.
\<close>

definition dtype_for :: "nat \<Rightarrow> nat \<Rightarrow> error + string" where
  "dtype_for code bts =
     (case (if code = 1 then
              (if bts = 8 then Some ''int8''
               else if bts = 16 then Some ''int16''
               else if bts = 24 then Some ''int24''
               else if bts = 32 then Some ''int32''
               else None)
            else None) of
        Some d \<Rightarrow> Inr d
      | None \<Rightarrow>
          if code = 3 \<and> bts = 32 then Inr ''float32''
          else Inl (UnsupportedFormat code bts))"

section \<open>The consumer pipeline: the loop of play_stream\<close>

definition MAX_HEADER_BYTES :: nat where
  "MAX_HEADER_BYTES = 1024 * 1024"

definition HEADER_DUMP :: string where
  "HEADER_DUMP = ''./wav_header_dump.bin''"

text \<open>The value of \<open>device_value(OUTPUT_DEVICE)\<close>: nothing, a device index or a name.\<close>

datatype device = DeviceIndex int | DeviceName string

text \<open>
  The audio sink \<open>sd.RawOutputStream\<close>: the arguments it was opened with, the byte
  strings written to it in order, and whether \<open>stop\<close> was called.
\<close>

record sink =
  samplerate :: nat
  sink_channels :: nat
  dtype :: string
  sink_device :: "device option"
  blocksize :: nat
  written :: "bytes list"
  stopped :: bool

text \<open>
  The local variables of \<open>play_stream\<close> that the loop reads and writes, and the
  content of the file \<open>HEADER_DUMP\<close> once it has been written (\<open>ps_buf\<close> is the
  local \<open>buf\<close>).
\<close>

record play_state =
  ps_buf :: bytes
  data_started :: bool
  stream :: "sink option"
  header_dump :: "bytes option"

definition play_init :: play_state where
  "play_init = \<lparr> ps_buf = [], data_started = False, stream = None, header_dump = None \<rparr>"

text \<open>
  \<open>fmt.get("resolved_format")\<close>: the dictionary the scanner builds has exactly the six
  keys of the record, so the lookup finds nothing.
\<close>

definition fmt_get_resolved_format :: "fmt \<Rightarrow> nat option" where
  "fmt_get_resolved_format f = None"

text \<open>\<open>x or 1\<close> on an optional integer: \<open>None\<close> and \<open>0\<close> are false.\<close>

definition or_1 :: "nat option \<Rightarrow> nat" where
  "or_1 x = (case x of None \<Rightarrow> 1 | Some c \<Rightarrow> if c = 0 then 1 else c)"

text \<open>
  The body of the \<open>for chunk in r.iter_content(...)\<close> loop, with the header bound as a
  parameter (the module sets it to \<open>MAX_HEADER_BYTES\<close>). It returns the new state and
  the exception that leaves the loop, if any. The \<open>print\<close> calls are left out.
\<close>

datatype loop_exit = AttributeError | Raised error

definition play_chunk ::
  "nat \<Rightarrow> device option \<Rightarrow> play_state \<Rightarrow> bytes \<Rightarrow> play_state \<times> loop_exit option" where
  "play_chunk max_header dev s chunk =
     (if chunk = [] then (s, None)
      else if \<not> data_started s then
        (let s1 = s\<lparr>ps_buf := ps_buf s @ chunk\<rparr> in
         case scan_chunks_streaming (ps_buf s1) of
           Inl e \<Rightarrow> (s1, Some (Raised e))
         | Inr (found, Some f, Some data_off) \<Rightarrow>
             (let code = audio_format f;
                  code = (if code = 0xFFFE then or_1 (fmt_get_resolved_format f) else code);
                  bts = bits f;
                  ch = channels f;
                  rt = rate f
              in case dtype_for code bts of
                   Inl e \<Rightarrow> (s1, Some (Raised e))
                 | Inr d \<Rightarrow>
                     (let initial_pcm = drop data_off (ps_buf s1);
                          st = \<lparr> samplerate = rt, sink_channels = ch, dtype = d,
                                 sink_device = dev, blocksize = 0,
                                 written = (if initial_pcm \<noteq> [] then [initial_pcm] else []),
                                 stopped = False \<rparr>
                      in (s1\<lparr>stream := Some st, data_started := True\<rparr>, None)))
         | Inr (found, _, _) \<Rightarrow>
             if length (ps_buf s1) > max_header
             then (s1\<lparr>header_dump := Some (ps_buf s1)\<rparr>,
                   Some (Raised (HeaderNotFound max_header HEADER_DUMP)))
             else (s1, None))
      else
        (case stream s of
           None \<Rightarrow> (s, Some AttributeError)
         | Some st \<Rightarrow> (s\<lparr>stream := Some (st\<lparr>written := written st @ [chunk]\<rparr>)\<rparr>, None)))"

text \<open>The \<open>for\<close> loop: an exception ends it, and the later chunks are never read.\<close>

fun play_loop ::
  "nat \<Rightarrow> device option \<Rightarrow> play_state \<Rightarrow> bytes list \<Rightarrow> play_state \<times> loop_exit option" where
  "play_loop max_header dev s [] = (s, None)"
| "play_loop max_header dev s (chunk # chunks) =
     (case play_chunk max_header dev s chunk of
        (s', Some e) \<Rightarrow> (s', Some e)
      | (s', None) \<Rightarrow> play_loop max_header dev s' chunks)"

text \<open>The \<open>try\<close> ... \<open>finally\<close> around the loop: the sink, if open, is stopped.\<close>

definition play_stream_body ::
  "nat \<Rightarrow> device option \<Rightarrow> bytes list \<Rightarrow> play_state \<times> loop_exit option" where
  "play_stream_body max_header dev chunks =
     (case play_loop max_header dev play_init chunks of
        (s, e) \<Rightarrow> (s\<lparr>stream := map_option (\<lambda>st. st\<lparr>stopped := True\<rparr>) (stream s)\<rparr>, e))"

definition play_stream :: "device option \<Rightarrow> bytes list \<Rightarrow> play_state \<times> loop_exit option" where
  "play_stream dev chunks = play_stream_body MAX_HEADER_BYTES dev chunks"

text \<open>
  The header phase of the same loop on its own: the buffer grows by each chunk that is
  not empty, the scanner runs on the whole buffer, and the first result that has both a
  format and a data offset is taken.
\<close>

definition located :: "error + scan_result \<Rightarrow> (fmt \<times> nat) option" where
  "located r = (case r of Inr (found, Some f, Some data_off) \<Rightarrow> Some (f, data_off) | _ \<Rightarrow> None)"

fun scan_incrementally :: "bytes \<Rightarrow> bytes list \<Rightarrow> (fmt \<times> nat) option" where
  "scan_incrementally b [] = None"
| "scan_incrementally b (chunk # chunks) =
     (if chunk = [] then scan_incrementally b chunks
      else (case located (scan_chunks_streaming (b @ chunk)) of
              Some r \<Rightarrow> Some r
            | None \<Rightarrow> scan_incrementally (b @ chunk) chunks))"

text \<open>
  A buffer laid out sub-chunk by sub-chunk: a sub-chunk is its four-byte tag, its
  four-byte size field and its payload, and it is complete when the size field holds
  the length of the payload.
\<close>

type_synonym chunk = "bytes \<times> bytes \<times> bytes"

fun chunk_bytes :: "chunk \<Rightarrow> bytes" where
  "chunk_bytes (cid, sz, payload) = cid @ sz @ payload"

fun complete_chunk :: "chunk \<Rightarrow> bool" where
  "complete_chunk (cid, sz, payload) \<longleftrightarrow> length cid = 4 \<and> unpack_I sz = Inr (length payload)"

fun chunk_tag :: "chunk \<Rightarrow> bytes" where
  "chunk_tag (cid, sz, payload) = cid"

fun parsed_fmt_chunk :: "chunk \<Rightarrow> bool" where
  "parsed_fmt_chunk (cid, sz, payload) \<longleftrightarrow> cid = tag_fmt \<and> 16 \<le> length payload"

definition riff_header :: "bytes \<Rightarrow> bool" where
  "riff_header h \<longleftrightarrow> length h = 12 \<and> slice h 0 4 = tag_RIFF \<and> slice h 8 12 = tag_WAVE"

section \<open>The relay: build_payload and the generator of tts_stream\<close>

text \<open>
  The request body \<open>TTSRequest\<close> and the dictionary \<open>DEFAULTS\<close>. Python floats are
  only passed on, never computed with, so they are values of any type \<open>'f\<close>.
\<close>

record 'f tts_request =
  req_text :: string
  req_language :: "string option"
  req_style :: "string option"
  req_model :: "string option"
  req_pitch_variance :: "'f option"
  req_speed :: "'f option"

record 'f defaults =
  def_language :: string
  def_style :: string
  def_model :: string
  def_pitch_variance :: 'f
  def_speed :: 'f

text \<open>The keys of the dictionary \<open>DEFAULTS\<close>, for the test \<open>"pitch_VARIANCE" in DEFAULTS\<close>.\<close>

definition DEFAULTS_keys :: "string list" where
  "DEFAULTS_keys = [''language'', ''style'', ''model'', ''pitch_variance'', ''speed'']"

record 'f voice_settings =
  vs_pitch_variance :: 'f
  vs_speed :: 'f

text \<open>The payload dictionary; the key \<open>style\<close> is present or not.\<close>

record 'f payload =
  pay_text :: string
  pay_language :: string
  pay_style :: "string option"
  pay_model :: string
  pay_voice_settings :: "'f voice_settings"

text \<open>\<open>a or d\<close> on an optional string: \<open>None\<close> and the empty string are false.\<close>

definition or_str :: "string option \<Rightarrow> string \<Rightarrow> string" where
  "or_str a d = (case a of None \<Rightarrow> d | Some v \<Rightarrow> if v = [] then d else v)"

text \<open>
  \<open>build_payload\<close>. A chain \<open>A if c1 else B if c2 else C if c3 else D\<close> groups to the
  right, and the value of \<open>pitch_variance\<close> is written as the source groups it.
\<close>

definition build_payload :: "'f defaults \<Rightarrow> 'f tts_request \<Rightarrow> 'f payload" where
  "build_payload DEFAULTS body =
     \<lparr> pay_text = req_text body,
       pay_language = or_str (req_language body) (def_language DEFAULTS),
       pay_style =
         (if or_str (req_style body) (def_style DEFAULTS) \<noteq> []
          then Some (or_str (req_style body) (def_style DEFAULTS)) else None),
       pay_model = or_str (req_model body) (def_model DEFAULTS),
       pay_voice_settings =
         \<lparr> vs_pitch_variance =
             (if req_pitch_variance body = None then def_pitch_variance DEFAULTS
              else if List.member DEFAULTS_keys ''pitch_VARIANCE''
                then the (req_pitch_variance body)
              else if req_pitch_variance body = None then def_pitch_variance DEFAULTS
              else the (req_pitch_variance body)),
           vs_speed =
             (if req_speed body = None then def_speed DEFAULTS
              else the (req_speed body)) \<rparr> \<rparr>"

text \<open>
  The exceptions that can end the upstream body: the six classes of the \<open>except\<close>
  clause, and any other exception, which the clause does not catch.
\<close>

datatype stream_exc =
    ReadError | StreamClosed | EndOfStream | ClosedResourceError | BrokenResourceError
  | CancelledError | OtherException string

fun caught :: "stream_exc \<Rightarrow> bool" where
  "caught (OtherException n) = False"
| "caught e = True"

text \<open>\<open>e.__class__.__name__\<close>.\<close>

fun class_name :: "stream_exc \<Rightarrow> string" where
  "class_name ReadError = ''ReadError''"
| "class_name StreamClosed = ''StreamClosed''"
| "class_name EndOfStream = ''EndOfStream''"
| "class_name ClosedResourceError = ''ClosedResourceError''"
| "class_name BrokenResourceError = ''BrokenResourceError''"
| "class_name CancelledError = ''CancelledError''"
| "class_name (OtherException n) = n"

text \<open>
  The upstream response: its status, its \<open>content-type\<close> header if it has one, the
  chunks its body delivers, and the exception that interrupts the body after them, if
  any.
\<close>

record upstream =
  status_code :: nat
  content_type :: "string option"
  body_chunks :: "bytes list"
  body_failure :: "stream_exc option"

text \<open>
  A Python \<open>str\<close> that comes out of decoding bytes is the list of its code points; a
  literal of the source, which is ASCII, is the code points of its characters.
\<close>

type_synonym unicode = "nat list"

definition code_points :: "string \<Rightarrow> unicode" where
  "code_points s = map of_char s"

text \<open>The \<open>detail\<close> of an \<open>HTTPException\<close>: a parsed JSON value or a text.\<close>

datatype 'j detail = DetailJson 'j | DetailText unicode

text \<open>How the generator ends: it returns, or an exception leaves it.\<close>

datatype 'j gen_end =
    Finished
  | HTTPException nat "'j detail"
  | JSONDecodeError
  | Propagated stream_exc

text \<open>\<open>p in s\<close> on strings.\<close>

fun str_in :: "string \<Rightarrow> string \<Rightarrow> bool" where
  "str_in p [] \<longleftrightarrow> p = []"
| "str_in p (c # s) \<longleftrightarrow> take (length p) (c # s) = p \<or> str_in p s"

text \<open>
  The streaming loop of \<open>gen\<close> with its counter \<open>sent\<close>: the chunks yielded from here
  on, and how the generator ends.
\<close>

fun gen_loop :: "nat \<Rightarrow> bytes list \<Rightarrow> stream_exc option \<Rightarrow> bytes list \<times> 'j gen_end" where
  "gen_loop sent [] None = ([], Finished)"
| "gen_loop sent [] (Some e) =
     (if caught e then
        (if sent = 0
         then ([], HTTPException 502
                 (DetailText (code_points (''Upstream stream error: '' @ class_name e))))
         else ([], Finished))
      else ([], Propagated e))"
| "gen_loop sent (chunk # chunks) failure =
     (if chunk \<noteq> [] then
        (case gen_loop (sent + length chunk) chunks failure of
           (ys, r) \<Rightarrow> (chunk # ys, r))
      else gen_loop sent chunks failure)"

text \<open>
  \<open>gen\<close>. The JSON parser behind \<open>httpx.Response(...).json()\<close> and the decoder
  \<open>data.decode("utf-8", "ignore")\<close> are library code and are parameters here: the
  parser gives nothing where it raises, and the decoder gives the code points of the
  text (\<open>utf8_decode_ignore\<close> below is that decoder). \<open>aread\<close> reads the whole body, and an
  interrupted body interrupts it outside any \<open>try\<close>.
\<close>

definition gen ::
  "(bytes \<Rightarrow> 'j option) \<Rightarrow> (bytes \<Rightarrow> unicode) \<Rightarrow> upstream \<Rightarrow> bytes list \<times> 'j gen_end" where
  "gen json decode up =
     (if status_code up \<noteq> 200 then
        (case body_failure up of
           Some e \<Rightarrow> ([], Propagated e)
         | None \<Rightarrow>
             (let data = concat (body_chunks up);
                  ctype = (case content_type up of None \<Rightarrow> [] | Some c \<Rightarrow> c)
              in if str_in ''application/json'' ctype then
                   (case json data of
                      None \<Rightarrow> ([], JSONDecodeError)
                    | Some j \<Rightarrow> ([], HTTPException (status_code up) (DetailJson j)))
                 else ([], HTTPException (status_code up)
                        (DetailText (if decode data = [] then code_points ''Upstream error''
                                     else decode data)))))
      else gen_loop 0 (body_chunks up) (body_failure up))"

text \<open>
  \<open>tts_stream\<close>: the payload goes to the upstream client, whose response is a
  parameter, and the handler returns a \<open>StreamingResponse\<close> built with status 200
  around the generator. The response body is what the generator yields and how it ends.
\<close>

record 'j streaming_response =
  resp_status_code :: nat
  resp_media_type :: string
  resp_headers :: "(string \<times> string) list"
  resp_body :: "bytes list \<times> 'j gen_end"

definition tts_stream ::
  "(bytes \<Rightarrow> 'j option) \<Rightarrow> (bytes \<Rightarrow> unicode) \<Rightarrow> 'f defaults \<Rightarrow> ('f payload \<Rightarrow> upstream) \<Rightarrow>
   'f tts_request \<Rightarrow> 'j streaming_response" where
  "tts_stream json decode DEFAULTS client body =
     (let payload = build_payload DEFAULTS body in
      \<lparr> resp_status_code = 200,
        resp_media_type = ''audio/wav'',
        resp_headers = [(''Cache-Control'', ''no-cache''), (''X-Content-Type-Options'', ''nosniff'')],
        resp_body = gen json decode (client payload) \<rparr>)"

text \<open>
  The decoder \<open>data.decode("utf-8", "ignore")\<close> itself: a well-formed UTF-8 sequence at
  the head of the bytes gives its code point, and a byte that starts none is dropped.
  \<open>utf8_sequence b0 bs\<close> reads the sequence that the lead byte \<open>b0\<close> starts in front
  of \<open>bs\<close>: its code point and the number of continuation bytes it takes. The second
  byte is restricted after the lead bytes E0, ED, F0 and F4 (no overlong form, no
  surrogate, nothing beyond U+10FFFF).
\<close>

definition continuation :: "byte \<Rightarrow> bool" where
  "continuation b \<longleftrightarrow> 0x80 \<le> b \<and> b \<le> 0xBF"

definition second_of_three :: "byte \<Rightarrow> byte \<Rightarrow> bool" where
  "second_of_three b0 b1 =
     (if b0 = 0xE0 then 0xA0 \<le> b1 \<and> b1 \<le> 0xBF
      else if b0 = 0xED then 0x80 \<le> b1 \<and> b1 \<le> 0x9F
      else continuation b1)"

definition second_of_four :: "byte \<Rightarrow> byte \<Rightarrow> bool" where
  "second_of_four b0 b1 =
     (if b0 = 0xF0 then 0x90 \<le> b1 \<and> b1 \<le> 0xBF
      else if b0 = 0xF4 then 0x80 \<le> b1 \<and> b1 \<le> 0x8F
      else continuation b1)"

fun utf8_sequence :: "byte \<Rightarrow> bytes \<Rightarrow> (nat \<times> nat) option" where
  "utf8_sequence b0 [] = None"
| "utf8_sequence b0 (b1 # r1) =
     (if 0xC2 \<le> b0 \<and> b0 \<le> 0xDF \<and> continuation b1
      then Some ((unat b0 - 0xC0) * 64 + (unat b1 - 0x80), 1)
      else
        (case r1 of
           [] \<Rightarrow> None
         | b2 # r2 \<Rightarrow>
             if 0xE0 \<le> b0 \<and> b0 \<le> 0xEF \<and> second_of_three b0 b1 \<and> continuation b2
             then Some ((unat b0 - 0xE0) * 4096 + (unat b1 - 0x80) * 64 + (unat b2 - 0x80), 2)
             else
               (case r2 of
                  [] \<Rightarrow> None
                | b3 # r3 \<Rightarrow>
                    if 0xF0 \<le> b0 \<and> b0 \<le> 0xF4 \<and> second_of_four b0 b1 \<and>
                       continuation b2 \<and> continuation b3
                    then Some ((unat b0 - 0xF0) * 262144 + (unat b1 - 0x80) * 4096 +
                               (unat b2 - 0x80) * 64 + (unat b3 - 0x80), 3)
                    else None)))"

function utf8_decode_ignore :: "bytes \<Rightarrow> unicode" where
  "utf8_decode_ignore [] = []"
| "utf8_decode_ignore (b0 # bs) =
     (if b0 < 0x80 then unat b0 # utf8_decode_ignore bs
      else
        (case utf8_sequence b0 bs of
           Some (cp, n) \<Rightarrow> cp # utf8_decode_ignore (drop n bs)
         | None \<Rightarrow> utf8_decode_ignore bs))"
  by pat_completeness auto
termination
  by (relation "measure length") auto

section \<open>Slices and unpacking inside the buffer\<close>

lemma length_slice: "b \<le> length buf \<Longrightarrow> length (slice buf a b) = b - a"
  by (simp add: slice_def)

lemma slice_append: "b \<le> length buf \<Longrightarrow> slice (buf @ ext) a b = slice buf a b"
  by (simp add: slice_def)

lemma unpack_I_length4: "length bs = 4 \<Longrightarrow> \<exists>n. unpack_I bs = Inr n"
  by (cases bs rule: unpack_I.cases) auto

lemma unpack_HHIIHH_length16: "length bs = 16 \<Longrightarrow> \<exists>f. unpack_HHIIHH bs = Inr f"
  by (cases bs rule: unpack_HHIIHH.cases) auto

lemma unpack_I_slice:
  assumes "i + 8 \<le> length buf"
  shows "\<exists>n. unpack_I (slice buf (i + 4) (i + 8)) = Inr n"
  using assms by (intro unpack_I_length4) (simp add: length_slice)

lemma unpack_HHIIHH_slice:
  assumes "i + 24 \<le> length buf"
  shows "\<exists>f. unpack_HHIIHH (slice buf (i + 8) (i + 8 + 16)) = Inr f"
  using assms by (intro unpack_HHIIHH_length16) (simp add: length_slice)

lemma scan_body_no_Raise:
  assumes "i + 8 \<le> length buf"
  shows "scan_body buf i fmt found \<noteq> Raise e"
proof -
  obtain n where n: "unpack_I (slice buf (i + 4) (i + 8)) = Inr n"
    using unpack_I_slice [OF assms] by blast
  show ?thesis
  proof (cases "16 \<le> n \<and> i + 8 + n \<le> length buf")
    case True
    then have "i + 24 \<le> length buf" by simp
    then obtain f where "unpack_HHIIHH (slice buf (i + 8) (i + 8 + 16)) = Inr f"
      using unpack_HHIIHH_slice by blast
    then show ?thesis using n by (simp add: scan_body_def Let_def)
  next
    case False
    then show ?thesis using n by (auto simp add: scan_body_def Let_def)
  qed
qed

lemma scan_loop_no_raise: "scan_loop buf i fmt found \<noteq> Inl e"
proof (induction buf i fmt found rule: scan_loop.induct)
  case (1 buf i fmt found)
  show ?case
  proof (cases "i + 8 \<le> length buf")
    case True
    show ?thesis
    proof (cases "scan_body buf i fmt found")
      case (Continue j fmt' found')
      then show ?thesis using True 1 by (subst scan_loop.simps) simp
    next
      case (Return r)
      then show ?thesis using True by (subst scan_loop.simps) simp
    next
      case (Raise e')
      then show ?thesis using True scan_body_no_Raise by blast
    qed
  next
    case False
    then show ?thesis by (subst scan_loop.simps) simp
  qed
qed

lemma scan_no_raise: "scan_chunks_streaming buf \<noteq> Inl e"
  by (simp add: scan_chunks_streaming_def scan_loop_no_raise)

section \<open>The scanner on a longer buffer\<close>

lemma scan_body_append_Continue:
  assumes "scan_body buf i fmt found = Continue j fmt' found'" and "i + 8 \<le> length buf"
  shows "scan_body (buf @ ext) i fmt found = Continue j fmt' found'"
proof -
  obtain n where n: "unpack_I (slice buf (i + 4) (i + 8)) = Inr n"
    using unpack_I_slice assms(2) by blast
  have s1: "slice (buf @ ext) i (i + 4) = slice buf i (i + 4)"
    and s2: "slice (buf @ ext) (i + 4) (i + 8) = slice buf (i + 4) (i + 8)"
    using assms(2) by (simp_all add: slice_append)
  show ?thesis
    using assms n
    by (auto simp: scan_body_def Let_def s1 s2 slice_append split: if_splits sum.splits)
qed

lemma scan_body_append_Return:
  assumes "scan_body buf i fmt found = Return (fd, f, Some d)" and "i + 8 \<le> length buf"
  shows "scan_body (buf @ ext) i fmt found = Return (fd, f, Some d)"
proof -
  obtain n where n: "unpack_I (slice buf (i + 4) (i + 8)) = Inr n"
    using unpack_I_slice assms(2) by blast
  have s1: "slice (buf @ ext) i (i + 4) = slice buf i (i + 4)"
    and s2: "slice (buf @ ext) (i + 4) (i + 8) = slice buf (i + 4) (i + 8)"
    using assms(2) by (simp_all add: slice_append)
  show ?thesis
    using assms n
    by (auto simp: scan_body_def Let_def s1 s2 tag_fmt_def tag_data_def split: if_splits sum.splits)
qed

lemma scan_loop_append:
  assumes "scan_loop buf i fmt found = Inr (fd, f, Some d)"
  shows "scan_loop (buf @ ext) i fmt found = Inr (fd, f, Some d)"
  using assms
proof (induction buf i fmt found rule: scan_loop.induct)
  case (1 buf i fmt found)
  have le: "i + 8 \<le> length buf"
    using "1.prems" by (subst (asm) scan_loop.simps) (simp split: if_splits)
  then have le': "i + 8 \<le> length (buf @ ext)" by simp
  show ?case
  proof (cases "scan_body buf i fmt found")
    case (Continue j fmt' found')
    then have "scan_loop buf j fmt' found' = Inr (fd, f, Some d)"
      using "1.prems" le by (subst (asm) scan_loop.simps) simp
    then have "scan_loop (buf @ ext) j fmt' found' = Inr (fd, f, Some d)"
      using "1.IH" le Continue by simp
    moreover have "scan_body (buf @ ext) i fmt found = Continue j fmt' found'"
      using Continue le by (rule scan_body_append_Continue)
    ultimately show ?thesis using le' by (subst scan_loop.simps) simp
  next
    case (Return r)
    then have "r = (fd, f, Some d)"
      using "1.prems" le by (subst (asm) scan_loop.simps) simp
    then have "scan_body (buf @ ext) i fmt found = Return (fd, f, Some d)"
      using Return le scan_body_append_Return by simp
    then show ?thesis using le' by (subst scan_loop.simps) simp
  next
    case (Raise e)
    then show ?thesis using le scan_body_no_Raise by blast
  qed
qed

lemma scan_append:
  assumes "scan_chunks_streaming buf = Inr (fd, f, Some d)"
  shows "scan_chunks_streaming (buf @ ext) = Inr (fd, f, Some d)"
proof -
  have h: "\<not> (length buf < 12 \<or> slice buf 0 4 \<noteq> tag_RIFF \<or> slice buf 8 12 \<noteq> tag_WAVE)"
    using assms by (auto simp: scan_chunks_streaming_def split: if_splits)
  then have "slice (buf @ ext) 0 4 = tag_RIFF" "slice (buf @ ext) 8 12 = tag_WAVE"
    by (simp_all add: slice_append)
  moreover have "scan_loop buf 12 None [] = Inr (fd, f, Some d)"
    using assms h by (simp add: scan_chunks_streaming_def)
  ultimately show ?thesis
    using h by (simp add: scan_chunks_streaming_def scan_loop_append)
qed

lemma scan_body_data_fmt:
  assumes "scan_body buf i fmt found = Return (fd, f, Some d)"
  shows "f \<noteq> None"
  using assms by (auto simp: scan_body_def Let_def split: if_splits sum.splits)

lemma scan_loop_data_fmt:
  assumes "scan_loop buf i fmt found = Inr (fd, f, Some d)"
  shows "f \<noteq> None"
  using assms
proof (induction buf i fmt found rule: scan_loop.induct)
  case (1 buf i fmt found)
  have le: "i + 8 \<le> length buf"
    using "1.prems" by (subst (asm) scan_loop.simps) (simp split: if_splits)
  show ?case
  proof (cases "scan_body buf i fmt found")
    case (Continue j fmt' found')
    then have "scan_loop buf j fmt' found' = Inr (fd, f, Some d)"
      using "1.prems" le by (subst (asm) scan_loop.simps) simp
    then show ?thesis using "1.IH" le Continue by simp
  next
    case (Return r)
    then have "r = (fd, f, Some d)"
      using "1.prems" le by (subst (asm) scan_loop.simps) simp
    then show ?thesis using Return scan_body_data_fmt by blast
  next
    case (Raise e)
    then show ?thesis using le scan_body_no_Raise by blast
  qed
qed

lemma scan_data_off_needs_fmt:
  assumes "scan_chunks_streaming buf = Inr (fd, f, Some d)"
  shows "f \<noteq> None"
proof -
  have "scan_loop buf 12 None [] = Inr (fd, f, Some d)"
    using assms by (auto simp: scan_chunks_streaming_def split: if_splits)
  then show ?thesis by (rule scan_loop_data_fmt)
qed

section \<open>The scanner on a buffer laid out sub-chunk by sub-chunk\<close>

lemma unpack_I_Inr_length: "unpack_I bs = Inr n \<Longrightarrow> length bs = 4"
  by (cases bs rule: unpack_I.cases) auto

lemma slice_mid: "length a = k \<Longrightarrow> slice (pre @ a @ post) (length pre) (length pre + k) = a"
  by (simp add: slice_def)

lemma scan_body_chunk:
  assumes "complete_chunk c" and "chunk_tag c \<noteq> tag_data"
  shows "\<exists>fmt' found'.
     scan_body (pre @ chunk_bytes c @ post) (length pre) fmt found =
       Continue (length pre + length (chunk_bytes c)) fmt' found' \<and>
     (fmt' = None \<longleftrightarrow> fmt = None \<and> \<not> parsed_fmt_chunk c)"
proof -
  obtain cid sz pl where c: "c = (cid, sz, pl)" by (cases c) auto
  have cid: "length cid = 4" and sz: "unpack_I sz = Inr (length pl)" and nd: "cid \<noteq> tag_data"
    using assms c by simp_all
  have lsz: "length sz = 4" using sz by (rule unpack_I_Inr_length)
  let ?B = "pre @ chunk_bytes c @ post"
  let ?i = "length pre"
  have B: "?B = pre @ cid @ sz @ pl @ post" by (simp add: c)
  have s1: "slice ?B ?i (?i + 4) = cid"
    unfolding B using slice_mid [of cid 4 pre "sz @ pl @ post"] cid by simp
  have s2: "slice ?B (?i + 4) (?i + 8) = sz"
    unfolding B using cid lsz by (simp add: slice_def)
  have len: "?i + 8 + length pl \<le> length ?B" by (simp add: c cid lsz)
  have lenc: "length (chunk_bytes c) = 8 + length pl" by (simp add: c cid lsz)
  show ?thesis
  proof (cases "cid = tag_fmt \<and> 16 \<le> length pl")
    case True
    then have "?i + 24 \<le> length ?B" using len by simp
    then obtain f where "unpack_HHIIHH (slice ?B (?i + 8) (?i + 8 + 16)) = Inr f"
      using unpack_HHIIHH_slice by blast
    moreover have "parsed_fmt_chunk c" using True by (simp add: c)
    ultimately show ?thesis
      using True len s1 s2 sz lenc
      by (simp add: scan_body_def Let_def)
  next
    case False
    moreover have "\<not> parsed_fmt_chunk c" using False by (simp add: c)
    ultimately show ?thesis
      using len s1 s2 sz nd lenc
      by (auto simp add: scan_body_def Let_def)
  qed
qed

lemma scan_loop_chunks:
  assumes "\<forall>c \<in> set cs. complete_chunk c \<and> chunk_tag c \<noteq> tag_data"
  shows "\<exists>fmt' found'.
     scan_loop (pre @ concat (map chunk_bytes cs) @ post) (length pre) fmt found =
       scan_loop (pre @ concat (map chunk_bytes cs) @ post)
         (length pre + length (concat (map chunk_bytes cs))) fmt' found' \<and>
     (fmt' = None \<longleftrightarrow> fmt = None \<and> (\<forall>c \<in> set cs. \<not> parsed_fmt_chunk c))"
  using assms
proof (induction cs arbitrary: pre fmt found)
  case Nil
  have "scan_loop (pre @ post) (length pre) fmt found =
        scan_loop (pre @ post) (length pre) fmt found \<and> (fmt = None \<longleftrightarrow> fmt = None)"
    by simp
  then show ?case by auto
next
  case (Cons c cs)
  let ?post = "concat (map chunk_bytes cs) @ post"
  let ?B = "pre @ chunk_bytes c @ ?post"
  have c: "complete_chunk c" "chunk_tag c \<noteq> tag_data" using Cons.prems by simp_all
  obtain fmt1 found1 where
    b: "scan_body ?B (length pre) fmt found =
          Continue (length pre + length (chunk_bytes c)) fmt1 found1"
    and f1: "fmt1 = None \<longleftrightarrow> fmt = None \<and> \<not> parsed_fmt_chunk c"
    using scan_body_chunk [OF c, of pre ?post fmt found] by blast
  have "length (chunk_bytes c) \<ge> 8"
    using c(1) by (cases c) (auto dest: unpack_I_Inr_length)
  then have le: "length pre + 8 \<le> length ?B" by simp
  have step: "scan_loop ?B (length pre) fmt found =
      scan_loop ?B (length pre + length (chunk_bytes c)) fmt1 found1"
    using le b by (subst scan_loop.simps) simp
  have rest: "\<forall>c \<in> set cs. complete_chunk c \<and> chunk_tag c \<noteq> tag_data"
    using Cons.prems by simp
  obtain fmt2 found2 where
    ih: "scan_loop ((pre @ chunk_bytes c) @ concat (map chunk_bytes cs) @ post)
           (length (pre @ chunk_bytes c)) fmt1 found1 =
         scan_loop ((pre @ chunk_bytes c) @ concat (map chunk_bytes cs) @ post)
           (length (pre @ chunk_bytes c) + length (concat (map chunk_bytes cs))) fmt2 found2"
    and f2: "fmt2 = None \<longleftrightarrow> fmt1 = None \<and> (\<forall>c \<in> set cs. \<not> parsed_fmt_chunk c)"
    using Cons.IH [OF rest, of "pre @ chunk_bytes c" fmt1 found1] by blast
  have "scan_loop (pre @ concat (map chunk_bytes (c # cs)) @ post) (length pre) fmt found =
      scan_loop (pre @ concat (map chunk_bytes (c # cs)) @ post)
        (length pre + length (concat (map chunk_bytes (c # cs)))) fmt2 found2"
    using step ih by (simp add: add.assoc)
  moreover have "fmt2 = None \<longleftrightarrow> fmt = None \<and> (\<forall>c \<in> set (c # cs). \<not> parsed_fmt_chunk c)"
    using f1 f2 by auto
  ultimately show ?case by blast
qed

lemma scan_loop_data_start:
  assumes "length dsz = 4"
  shows "\<exists>n. unpack_I dsz = Inr n \<and>
     scan_loop (pre @ tag_data @ dsz @ rest) (length pre) (Some f) found =
       Inr (found @ [(tag_data, length pre, n)], Some f, Some (length pre + 8))"
proof -
  let ?B = "pre @ tag_data @ dsz @ rest"
  let ?i = "length pre"
  have t: "length tag_data = 4" by (simp add: tag_data_def)
  have s1: "slice ?B ?i (?i + 4) = tag_data"
    using slice_mid [of tag_data 4 pre "dsz @ rest"] t by simp
  have s2: "slice ?B (?i + 4) (?i + 8) = dsz"
    using t assms by (simp add: slice_def)
  obtain n where n: "unpack_I dsz = Inr n" using unpack_I_length4 [OF assms] by blast
  have ne: "tag_data \<noteq> tag_fmt" by (simp add: tag_data_def tag_fmt_def)
  have le: "?i + 8 \<le> length ?B" using t assms by simp
  have "scan_body ?B ?i (Some f) found =
      Return (found @ [(tag_data, ?i, n)], Some f, Some (?i + 8))"
    using s1 s2 n ne le by (simp add: scan_body_def Let_def)
  then have "scan_loop ?B ?i (Some f) found =
      Inr (found @ [(tag_data, ?i, n)], Some f, Some (?i + 8))"
    using le by (subst scan_loop.simps) simp
  then show ?thesis using n by blast
qed

lemma scan_loop_data_no_fmt:
  "scan_loop (pre @ tag_data @ rest) (length pre) None found = Inr (found, None, None)"
proof (cases "length pre + 8 \<le> length (pre @ tag_data @ rest)")
  case True
  let ?B = "pre @ tag_data @ rest"
  let ?i = "length pre"
  have t: "length tag_data = 4" by (simp add: tag_data_def)
  have s1: "slice ?B ?i (?i + 4) = tag_data"
    using slice_mid [of tag_data 4 pre rest] t by simp
  obtain n where n: "unpack_I (slice ?B (?i + 4) (?i + 8)) = Inr n"
    using unpack_I_slice [OF True] by blast
  have ne: "tag_data \<noteq> tag_fmt" by (simp add: tag_data_def tag_fmt_def)
  have "scan_body ?B ?i None found = Return (found, None, None)"
    using s1 n ne True by (simp add: scan_body_def Let_def)
  then show ?thesis using True by (subst scan_loop.simps) simp
next
  case False
  then show ?thesis by (subst scan_loop.simps) simp
qed

lemma scan_header:
  assumes "riff_header h"
  shows "scan_chunks_streaming (h @ b) = scan_loop (h @ b) (length h) None []"
proof -
  have "length h = 12" "slice h 0 4 = tag_RIFF" "slice h 8 12 = tag_WAVE"
    using assms by (simp_all add: riff_header_def)
  then show ?thesis
    by (simp add: scan_chunks_streaming_def slice_append)
qed

section \<open>Claims about the scanner\<close>

text \<open>
  C1. A buffer that starts with a RIFF/WAVE header, goes on with complete sub-chunks
  other than \<open>data\<close>, one of them a \<open>fmt\<close> sub-chunk of at least 16 payload bytes,
  and then holds the tag \<open>data\<close> and its four size bytes: the scanner returns a format
  and the data offset "position of the tag + 8", its last descriptor is the \<open>data\<close>
  one with the declared size, whatever that size is, and the bytes after the eight
  header bytes do not change the result.
\<close>

theorem data_start_after_fmt:
  assumes "riff_header h"
    and "\<forall>c \<in> set cs. complete_chunk c \<and> chunk_tag c \<noteq> tag_data"
    and "\<exists>c \<in> set cs. parsed_fmt_chunk c"
    and "length dsz = 4"
  shows "\<exists>found f n.
     scan_chunks_streaming (h @ concat (map chunk_bytes cs) @ tag_data @ dsz @ rest) =
       Inr (found @ [(tag_data, length (h @ concat (map chunk_bytes cs)), n)], Some f,
            Some (length (h @ concat (map chunk_bytes cs)) + 8)) \<and>
     unpack_I dsz = Inr n \<and>
     scan_chunks_streaming (h @ concat (map chunk_bytes cs) @ tag_data @ dsz) =
       scan_chunks_streaming (h @ concat (map chunk_bytes cs) @ tag_data @ dsz @ rest)"
proof -
  let ?C = "concat (map chunk_bytes cs)"
  let ?B = "h @ ?C @ tag_data @ dsz"
  obtain fmt' found' where
    walk: "scan_loop ?B (length h) None [] = scan_loop ?B (length h + length ?C) fmt' found'"
    and "fmt' = None \<longleftrightarrow> None = (None :: fmt option) \<and> (\<forall>c \<in> set cs. \<not> parsed_fmt_chunk c)"
    using scan_loop_chunks [OF assms(2), of h "tag_data @ dsz" None "[]"] by blast
  then obtain f where f: "fmt' = Some f" using assms(3) by auto
  obtain n where n: "unpack_I dsz = Inr n"
    and "scan_loop ((h @ ?C) @ tag_data @ dsz @ []) (length (h @ ?C)) (Some f) found' =
      Inr (found' @ [(tag_data, length (h @ ?C), n)], Some f, Some (length (h @ ?C) + 8))"
    using scan_loop_data_start [OF assms(4), of "h @ ?C" "[]" f found'] by blast
  then have short: "scan_chunks_streaming ?B =
      Inr (found' @ [(tag_data, length (h @ ?C), n)], Some f, Some (length (h @ ?C) + 8))"
    using scan_header [OF assms(1), of "?C @ tag_data @ dsz"] walk f by simp
  have "scan_chunks_streaming (?B @ rest) =
      Inr (found' @ [(tag_data, length (h @ ?C), n)], Some f, Some (length (h @ ?C) + 8))"
    using short by (rule scan_append)
  then show ?thesis using short n by simp
qed

theorem data_start_after_fmt_witness:
  "\<exists>found f.
     scan_chunks_streaming
       ([0x52, 0x49, 0x46, 0x46, 0xFF, 0xFF, 0xFF, 0xFF, 0x57, 0x41, 0x56, 0x45] @
        concat (map chunk_bytes
          [([0x66, 0x6D, 0x74, 0x20], [0x10, 0, 0, 0],
            [1, 0, 2, 0, 0x80, 0xBB, 0, 0, 0, 0xEE, 2, 0, 4, 0, 0x10, 0])]) @
        tag_data @ [0xFF, 0xFF, 0xFF, 0xFF] @ [7, 7]) =
       Inr (found @ [(tag_data, 36, 4294967295)], Some f, Some 44)"
proof -
  let ?h = "[0x52, 0x49, 0x46, 0x46, 0xFF, 0xFF, 0xFF, 0xFF, 0x57, 0x41, 0x56, 0x45] :: bytes"
  let ?cs = "[([0x66, 0x6D, 0x74, 0x20], [0x10, 0, 0, 0],
            [1, 0, 2, 0, 0x80, 0xBB, 0, 0, 0, 0xEE, 2, 0, 4, 0, 0x10, 0])] :: chunk list"
  let ?dsz = "[0xFF, 0xFF, 0xFF, 0xFF] :: bytes"
  have h: "riff_header ?h"
    by (simp add: riff_header_def slice_def tag_RIFF_def tag_WAVE_def)
  have cs: "\<forall>c \<in> set ?cs. complete_chunk c \<and> chunk_tag c \<noteq> tag_data"
    by (simp add: tag_data_def)
  have f: "\<exists>c \<in> set ?cs. parsed_fmt_chunk c"
    by (simp add: tag_fmt_def)
  have d: "length ?dsz = 4" by simp
  have len: "length (?h @ concat (map chunk_bytes ?cs)) = 36" by simp
  have n: "unpack_I ?dsz = Inr 4294967295" by simp
  show ?thesis
    using data_start_after_fmt [OF h cs f d, of "[7, 7]"] unfolding len n by auto
qed

text \<open>
  C2. A buffer that starts with a RIFF/WAVE header, goes on with complete sub-chunks none
  of which gives a format (no \<open>data\<close> tag, no \<open>fmt\<close> sub-chunk of 16 payload bytes or
  more), and then holds the tag \<open>data\<close>, followed by anything: the scanner returns no
  format and no data offset.
\<close>

theorem data_before_fmt_waits:
  assumes "riff_header h"
    and "\<forall>c \<in> set cs. complete_chunk c \<and> chunk_tag c \<noteq> tag_data \<and> \<not> parsed_fmt_chunk c"
  shows "\<exists>found.
     scan_chunks_streaming (h @ concat (map chunk_bytes cs) @ tag_data @ rest) =
       Inr (found, None, None)"
proof -
  let ?C = "concat (map chunk_bytes cs)"
  let ?B = "h @ ?C @ tag_data @ rest"
  have cs: "\<forall>c \<in> set cs. complete_chunk c \<and> chunk_tag c \<noteq> tag_data"
    using assms(2) by simp
  obtain fmt' found' where
    walk: "scan_loop ?B (length h) None [] = scan_loop ?B (length h + length ?C) fmt' found'"
    and "fmt' = None \<longleftrightarrow> None = (None :: fmt option) \<and> (\<forall>c \<in> set cs. \<not> parsed_fmt_chunk c)"
    using scan_loop_chunks [OF cs, of h "tag_data @ rest" None "[]"] by blast
  then have f: "fmt' = None" using assms(2) by simp
  have "scan_loop ((h @ ?C) @ tag_data @ rest) (length (h @ ?C)) None found' =
      Inr (found', None, None)"
    by (rule scan_loop_data_no_fmt)
  then have "scan_chunks_streaming ?B = Inr (found', None, None)"
    using scan_header [OF assms(1), of "?C @ tag_data @ rest"] walk f by simp
  then show ?thesis by blast
qed

theorem data_before_fmt_waits_witness:
  "\<exists>found.
     scan_chunks_streaming
       ([0x52, 0x49, 0x46, 0x46, 0x24, 0, 0, 0, 0x57, 0x41, 0x56, 0x45] @
        concat (map chunk_bytes
          [([0x4A, 0x55, 0x4E, 0x4B], [2, 0, 0, 0], [0, 0]),
           ([0x66, 0x6D, 0x74, 0x20], [4, 0, 0, 0], [1, 0, 2, 0])]) @
        tag_data @ [8, 0, 0, 0, 1, 2, 3, 4, 5, 6, 7, 8]) =
       Inr (found, None, None)"
  using data_before_fmt_waits
    [of "[0x52, 0x49, 0x46, 0x46, 0x24, 0, 0, 0, 0x57, 0x41, 0x56, 0x45]"
        "[([0x4A, 0x55, 0x4E, 0x4B], [2, 0, 0, 0], [0, 0]),
           ([0x66, 0x6D, 0x74, 0x20], [4, 0, 0, 0], [1, 0, 2, 0])]"
        "[8, 0, 0, 0, 1, 2, 3, 4, 5, 6, 7, 8]"]
  by (simp add: riff_header_def slice_def tag_RIFF_def tag_WAVE_def tag_fmt_def tag_data_def)

lemma located_Some:
  "located r = Some (f, d) \<longleftrightarrow> (\<exists>found. r = Inr (found, Some f, Some d))"
  by (auto simp: located_def split: sum.splits option.splits)

lemma located_append:
  assumes "located (scan_chunks_streaming b) = Some r"
  shows "located (scan_chunks_streaming (b @ ext)) = Some r"
proof -
  obtain f d where r: "r = (f, d)" by (cases r)
  then obtain found where "scan_chunks_streaming b = Inr (found, Some f, Some d)"
    using assms by (auto simp: located_Some)
  then have "scan_chunks_streaming (b @ ext) = Inr (found, Some f, Some d)"
    by (rule scan_append)
  then show ?thesis using r by (auto simp: located_Some)
qed

lemma scan_incrementally_from:
  assumes "located (scan_chunks_streaming (b @ concat chunks)) = Some r"
    and "located (scan_chunks_streaming b) = None"
  shows "scan_incrementally b chunks = Some r"
  using assms
proof (induction chunks arbitrary: b)
  case Nil
  then show ?case by simp
next
  case (Cons c chunks)
  show ?case
  proof (cases "c = []")
    case True
    then show ?thesis using Cons by simp
  next
    case False
    show ?thesis
    proof (cases "located (scan_chunks_streaming (b @ c))")
      case None
      then show ?thesis using Cons.IH [of "b @ c"] Cons.prems(1) False by simp
    next
      case (Some r')
      then have "located (scan_chunks_streaming ((b @ c) @ concat chunks)) = Some r'"
        by (rule located_append)
      then have "r' = r" using Cons.prems(1) by simp
      then show ?thesis using Some False by simp
    qed
  qed
qed

text \<open>
  C3. When one call of the scanner on the whole byte sequence gives a format and a data
  offset, scanning chunk by chunk (the buffer grows by each chunk, the scanner runs on
  each buffer, the first result with both a format and a data offset is taken) gives
  the same format and the same data offset, however the sequence is cut into chunks.
\<close>

theorem incremental_scan_agrees:
  assumes "located (scan_chunks_streaming (concat chunks)) = Some (f, data_off)"
  shows "scan_incrementally [] chunks = Some (f, data_off)"
proof -
  have "located (scan_chunks_streaming []) = None"
    by (simp add: scan_chunks_streaming_def located_def)
  then show ?thesis using assms scan_incrementally_from [of "[]" chunks] by simp
qed

theorem incremental_scan_agrees_witness:
  "scan_incrementally []
     [[0x52, 0x49, 0x46, 0x46, 0xFF, 0xFF, 0xFF, 0xFF, 0x57, 0x41, 0x56, 0x45, 0x66, 0x6D, 0x74, 0x20],
      [],
      [0x10, 0, 0, 0, 1, 0, 2, 0, 0x80, 0xBB, 0, 0, 0, 0xEE, 2, 0, 4, 0, 0x10, 0, 0x64, 0x61],
      [0x74, 0x61, 0xFF, 0xFF, 0xFF],
      [0xFF, 7, 7, 7, 7]] =
   Some (\<lparr> audio_format = 1, channels = 2, rate = 48000, bits = 16, block_align = 4,
            byte_rate = 192000 \<rparr>, 44)"
proof -
  have "located (scan_chunks_streaming (concat
     [[0x52, 0x49, 0x46, 0x46, 0xFF, 0xFF, 0xFF, 0xFF, 0x57, 0x41, 0x56, 0x45, 0x66, 0x6D, 0x74, 0x20],
      [],
      [0x10, 0, 0, 0, 1, 0, 2, 0, 0x80, 0xBB, 0, 0, 0, 0xEE, 2, 0, 4, 0, 0x10, 0, 0x64, 0x61],
      [0x74, 0x61, 0xFF, 0xFF, 0xFF],
      [0xFF, 7, 7, 7, 7]])) =
   Some (\<lparr> audio_format = 1, channels = 2, rate = 48000, bits = 16, block_align = 4,
            byte_rate = 192000 \<rparr>, 44)"
    by (simp add: located_def scan_chunks_streaming_def scan_loop.simps scan_body_def slice_def
        tag_RIFF_def tag_WAVE_def tag_fmt_def tag_data_def le16_def le32_def)
  then show ?thesis by (rule incremental_scan_agrees)
qed

section \<open>Claims about the accumulation loop\<close>

lemma located_None_cases:
  assumes "located (scan_chunks_streaming b) = None"
  shows "\<exists>found f d. scan_chunks_streaming b = Inr (found, f, d) \<and> (f = None \<or> d = None)"
proof (cases "scan_chunks_streaming b")
  case (Inl e)
  then show ?thesis using scan_no_raise by blast
next
  case (Inr r)
  then show ?thesis using assms
    by (cases r) (auto simp: located_def split: option.splits)
qed

lemma play_chunk_accumulate:
  assumes "\<not> data_started s"
    and "located (scan_chunks_streaming (ps_buf s @ chunk)) = None"
    and "length (ps_buf s @ chunk) \<le> max_header"
  shows "play_chunk max_header dev s chunk = (s\<lparr>ps_buf := ps_buf s @ chunk\<rparr>, None)"
proof (cases "chunk = []")
  case True
  then show ?thesis by (simp add: play_chunk_def)
next
  case False
  obtain found f d where "scan_chunks_streaming (ps_buf s @ chunk) = Inr (found, f, d)"
    and "f = None \<or> d = None"
    using located_None_cases [OF assms(2)] by blast
  then show ?thesis
    using False assms(1,3)
    by (auto simp: play_chunk_def Let_def split: option.splits)
qed

lemma play_chunk_fail:
  assumes "\<not> data_started s"
    and "located (scan_chunks_streaming (ps_buf s @ chunk)) = None"
    and "max_header < length (ps_buf s @ chunk)"
    and "chunk \<noteq> []"
  shows "play_chunk max_header dev s chunk =
    (s\<lparr>ps_buf := ps_buf s @ chunk, header_dump := Some (ps_buf s @ chunk)\<rparr>,
     Some (Raised (HeaderNotFound max_header HEADER_DUMP)))"
proof -
  obtain found f d where "scan_chunks_streaming (ps_buf s @ chunk) = Inr (found, f, d)"
    and "f = None \<or> d = None"
    using located_None_cases [OF assms(2)] by blast
  then show ?thesis
    using assms(1,3,4)
    by (auto simp: play_chunk_def Let_def split: option.splits)
qed

lemma play_loop_accumulate:
  assumes "\<not> data_started s"
    and "\<forall>k \<le> length chunks. located (scan_chunks_streaming (ps_buf s @ concat (take k chunks))) = None"
    and "length (ps_buf s @ concat chunks) \<le> max_header"
  shows "play_loop max_header dev s chunks = (s\<lparr>ps_buf := ps_buf s @ concat chunks\<rparr>, None)"
  using assms
proof (induction chunks arbitrary: s)
  case Nil
  then show ?case by simp
next
  case (Cons c chunks)
  let ?s = "s\<lparr>ps_buf := ps_buf s @ c\<rparr>"
  have "located (scan_chunks_streaming (ps_buf s @ concat (take 1 (c # chunks)))) = None"
    using Cons.prems(2) by (metis One_nat_def Suc_leI length_Cons zero_less_Suc)
  then have one: "located (scan_chunks_streaming (ps_buf s @ c)) = None" by simp
  have len: "length (ps_buf s @ c) \<le> max_header" using Cons.prems(3) by simp
  have step: "play_chunk max_header dev s c = (?s, None)"
    using Cons.prems(1) one len by (rule play_chunk_accumulate)
  have nd: "\<not> data_started ?s" using Cons.prems(1) by simp
  have "\<forall>k \<le> length chunks.
      located (scan_chunks_streaming (ps_buf ?s @ concat (take k chunks))) = None"
  proof (intro allI impI)
    fix k assume "k \<le> length chunks"
    then have "Suc k \<le> length (c # chunks)" by simp
    then have "located (scan_chunks_streaming (ps_buf s @ concat (take (Suc k) (c # chunks)))) = None"
      using Cons.prems(2) by blast
    then show "located (scan_chunks_streaming (ps_buf ?s @ concat (take k chunks))) = None"
      by simp
  qed
  moreover have "length (ps_buf ?s @ concat chunks) \<le> max_header" using Cons.prems(3) by simp
  ultimately have "play_loop max_header dev ?s chunks =
      (?s\<lparr>ps_buf := ps_buf ?s @ concat chunks\<rparr>, None)"
    using Cons.IH [OF nd] by blast
  then show ?case using step by simp
qed

lemma play_loop_append:
  assumes "play_loop max_header dev s xs = (s', None)"
  shows "play_loop max_header dev s (xs @ ys) = play_loop max_header dev s' ys"
  using assms
  by (induction xs arbitrary: s) (auto split: prod.splits option.splits)

text \<open>
  C4. Chunks \<open>pre\<close> keep the buffer within the bound, the next chunk \<open>c\<close> takes it
  beyond the bound, and no buffer up to there gives both a format and a data offset.
  Then the loop ends without an exception on every prefix of \<open>pre\<close>, with nothing
  dumped; and on \<open>pre\<close>, \<open>c\<close> and whatever chunks follow it ends at \<open>c\<close>, once, with
  the whole buffer written to the dump file and the header-not-found error that carries
  the bound. The chunks after \<open>c\<close> are never read.
\<close>

theorem header_not_found:
  assumes "\<forall>k \<le> Suc (length pre).
      located (scan_chunks_streaming (concat (take k (pre @ [c])))) = None"
    and "length (concat pre) \<le> max_header"
    and "max_header < length (concat (pre @ [c]))"
  shows "(\<forall>k \<le> length pre. play_stream_body max_header dev (take k pre) =
            (play_init\<lparr>ps_buf := concat (take k pre)\<rparr>, None)) \<and>
         play_stream_body max_header dev (pre @ c # rest) =
           (play_init\<lparr>ps_buf := concat (pre @ [c]), header_dump := Some (concat (pre @ [c]))\<rparr>,
            Some (Raised (HeaderNotFound max_header HEADER_DUMP)))"
proof -
  have init: "\<not> data_started play_init" "ps_buf play_init = []" "stream play_init = None"
    by (simp_all add: play_init_def)
  have acc: "play_loop max_header dev play_init (take k pre) =
      (play_init\<lparr>ps_buf := concat (take k pre)\<rparr>, None)" if k: "k \<le> length pre" for k
  proof -
    have "\<forall>j \<le> length (take k pre).
        located (scan_chunks_streaming (ps_buf play_init @ concat (take j (take k pre)))) = None"
    proof (intro allI impI)
      fix j assume "j \<le> length (take k pre)"
      then have j: "j \<le> k" "j \<le> length pre" using k by simp_all
      then have "take j (take k pre) = take j (pre @ [c])" by (simp add: min_def)
      moreover have "j \<le> Suc (length pre)" using j by simp
      ultimately show "located (scan_chunks_streaming
          (ps_buf play_init @ concat (take j (take k pre)))) = None"
        using assms(1) init by simp
    qed
    moreover have "length (concat (take k pre)) \<le> length (concat pre)"
      by (metis append_take_drop_id concat_append length_append le_add1)
    then have "length (ps_buf play_init @ concat (take k pre)) \<le> max_header"
      using assms(2) init by simp
    ultimately show ?thesis
      using play_loop_accumulate [OF init(1), of "take k pre" max_header dev] init by simp
  qed
  have first: "\<forall>k \<le> length pre. play_stream_body max_header dev (take k pre) =
            (play_init\<lparr>ps_buf := concat (take k pre)\<rparr>, None)"
    using acc init by (simp add: play_stream_body_def)
  let ?s = "play_init\<lparr>ps_buf := concat pre\<rparr>"
  have "play_loop max_header dev play_init pre = (?s, None)"
    using acc [of "length pre"] by simp
  then have split: "play_loop max_header dev play_init (pre @ c # rest) =
      play_loop max_header dev ?s (c # rest)"
    by (rule play_loop_append)
  have "located (scan_chunks_streaming (concat (take (Suc (length pre)) (pre @ [c])))) = None"
    using assms(1) by blast
  then have loc: "located (scan_chunks_streaming (ps_buf ?s @ c)) = None" by simp
  have "c \<noteq> []" using assms(2,3) by auto
  moreover have "max_header < length (ps_buf ?s @ c)" using assms(3) by simp
  moreover have "\<not> data_started ?s" using init by simp
  ultimately have "play_chunk max_header dev ?s c =
    (?s\<lparr>ps_buf := ps_buf ?s @ c, header_dump := Some (ps_buf ?s @ c)\<rparr>,
     Some (Raised (HeaderNotFound max_header HEADER_DUMP)))"
    using loc play_chunk_fail by blast
  then have "play_loop max_header dev play_init (pre @ c # rest) =
      (play_init\<lparr>ps_buf := concat (pre @ [c]), header_dump := Some (concat (pre @ [c]))\<rparr>,
       Some (Raised (HeaderNotFound max_header HEADER_DUMP)))"
    using split by simp
  then show ?thesis using first init by (simp add: play_stream_body_def)
qed

theorem header_not_found_witness:
  "play_stream_body 8 None [[1, 2, 3, 4, 5], [], [6, 7, 8]] =
     (play_init\<lparr>ps_buf := [1, 2, 3, 4, 5, 6, 7, 8]\<rparr>, None) \<and>
   play_stream_body 8 None [[1, 2, 3, 4, 5], [], [6, 7, 8], [9, 10], [11]] =
     (play_init\<lparr>ps_buf := [1, 2, 3, 4, 5, 6, 7, 8, 9, 10],
                header_dump := Some [1, 2, 3, 4, 5, 6, 7, 8, 9, 10]\<rparr>,
      Some (Raised (HeaderNotFound 8 HEADER_DUMP))) \<and>
   play_stream None [replicate 1048577 0] =
     (play_init\<lparr>ps_buf := replicate 1048577 0, header_dump := Some (replicate 1048577 0)\<rparr>,
      Some (Raised (HeaderNotFound 1048576 HEADER_DUMP)))"
proof -
  let ?pre = "[[1, 2, 3, 4, 5], [], [6, 7, 8]] :: bytes list"
  have short: "located (scan_chunks_streaming b) = None" if "length b < 12" for b
    using that by (simp add: scan_chunks_streaming_def located_def)
  have a: "\<forall>k \<le> Suc (length ?pre).
      located (scan_chunks_streaming (concat (take k (?pre @ [[9, 10]])))) = None"
  proof (intro allI impI)
    fix k
    have "length (concat (take k (?pre @ [[9, 10 :: byte]]))) \<le>
          length (concat (take k (?pre @ [[9, 10]])) @ concat (drop k (?pre @ [[9, 10]])))"
      by simp
    also have "\<dots> = length (concat (?pre @ [[9, 10 :: byte]]))"
      by (simp only: concat_append [symmetric] append_take_drop_id)
    finally have "length (concat (take k (?pre @ [[9, 10 :: byte]]))) < 12" by simp
    then show "located (scan_chunks_streaming (concat (take k (?pre @ [[9, 10]])))) = None"
      by (rule short)
  qed
  have b: "length (concat ?pre) \<le> 8" by simp
  have c: "8 < length (concat (?pre @ [[9, 10 :: byte]]))" by simp
  have small: "play_stream_body 8 None [[1, 2, 3, 4, 5], [], [6, 7, 8]] =
     (play_init\<lparr>ps_buf := [1, 2, 3, 4, 5, 6, 7, 8]\<rparr>, None) \<and>
   play_stream_body 8 None [[1, 2, 3, 4, 5], [], [6, 7, 8], [9, 10], [11]] =
     (play_init\<lparr>ps_buf := [1, 2, 3, 4, 5, 6, 7, 8, 9, 10],
                header_dump := Some [1, 2, 3, 4, 5, 6, 7, 8, 9, 10]\<rparr>,
      Some (Raised (HeaderNotFound 8 HEADER_DUMP)))"
    using header_not_found [OF a b c, of None "[[11]]"] by force

  have "located (scan_chunks_streaming (replicate n 0)) = None" for n
  proof (cases "n < 12")
    case True
    then show ?thesis by (simp add: scan_chunks_streaming_def located_def)
  next
    case False
    then have "slice (replicate n 0) 0 4 = [0, 0, 0, 0]"
      by (simp add: slice_def min_def numeral_eq_Suc)
    then show ?thesis by (simp add: scan_chunks_streaming_def located_def tag_RIFF_def)
  qed
  note zeros = this
  have a': "\<forall>k \<le> Suc (length ([] :: bytes list)).
      located (scan_chunks_streaming (concat (take k ([] @ [replicate 1048577 0])))) = None"
  proof (intro allI impI)
    fix k :: nat
    have "concat (take k ([] @ [replicate 1048577 (0 :: byte)])) =
        replicate (if k = 0 then 0 else 1048577) 0"
      by (cases k) simp_all
    then show "located (scan_chunks_streaming
        (concat (take k ([] @ [replicate 1048577 0])))) = None"
      using zeros by simp
  qed
  have big: "play_stream None [replicate 1048577 0] =
     (play_init\<lparr>ps_buf := replicate 1048577 0, header_dump := Some (replicate 1048577 0)\<rparr>,
      Some (Raised (HeaderNotFound 1048576 HEADER_DUMP)))"
    using header_not_found [OF a', of 1048576 None "[]"]
    by (simp add: play_stream_def MAX_HEADER_BYTES_def)
  show ?thesis using small big by simp
qed

text \<open>
  C7 as amended. When the scanner gives a format whose code is 0xFFFE and a data offset,
  the loop puts the PCM code 1 in its place (the scanner records no resolved
  sub-format) and resolves the encoding from 1 and the bit depth: with a bit depth that
  \<open>dtype_for\<close> accepts for PCM the sink is opened with that encoding and streaming
  starts; with any other bit depth the unsupported-format error is raised, and it
  carries the code 1.
\<close>

theorem extensible_defaults_to_pcm:
  assumes "\<not> data_started s" and "chunk \<noteq> []"
    and "scan_chunks_streaming (ps_buf s @ chunk) = Inr (found, Some f, Some data_off)"
    and "audio_format f = 0xFFFE"
  shows "(\<forall>d. dtype_for 1 (bits f) = Inr d \<longrightarrow>
            snd (play_chunk max_header dev s chunk) = None \<and>
            data_started (fst (play_chunk max_header dev s chunk)) \<and>
            map_option dtype (stream (fst (play_chunk max_header dev s chunk))) = Some d) \<and>
         (bits f \<notin> {8, 16, 24, 32} \<longrightarrow>
            snd (play_chunk max_header dev s chunk) =
              Some (Raised (UnsupportedFormat 1 (bits f))))"
  using assms
  by (auto simp: play_chunk_def Let_def or_1_def fmt_get_resolved_format_def dtype_for_def
      split: sum.splits)

lemma extensible_wav_scan:
  "scan_chunks_streaming
     [0x52, 0x49, 0x46, 0x46, 0xFF, 0xFF, 0xFF, 0xFF, 0x57, 0x41, 0x56, 0x45,
      0x66, 0x6D, 0x74, 0x20, 0x10, 0, 0, 0,
      0xFE, 0xFF, 2, 0, 0x80, 0xBB, 0, 0, 0, 0xEE, 2, 0, 4, 0, 0x10, 0,
      0x64, 0x61, 0x74, 0x61, 0xFF, 0xFF, 0xFF, 0xFF, 7, 7, 7, 7] =
   Inr ([(tag_fmt, 12, 16), (tag_data, 36, 4294967295)],
        Some \<lparr> audio_format = 0xFFFE, channels = 2, rate = 48000, bits = 16, block_align = 4,
               byte_rate = 192000 \<rparr>,
        Some 44)"
  by (simp add: scan_chunks_streaming_def scan_loop.simps scan_body_def slice_def
      tag_RIFF_def tag_WAVE_def tag_fmt_def tag_data_def le16_def le32_def)

text \<open>
  C7 as stated fails: a stream whose \<open>fmt\<close> sub-chunk has the code 0xFFFE and 16 bits
  is not rejected. The loop raises nothing and opens the sink as int16.
\<close>

theorem extensible_not_rejected:
  "play_stream None
     [[0x52, 0x49, 0x46, 0x46, 0xFF, 0xFF, 0xFF, 0xFF, 0x57, 0x41, 0x56, 0x45,
       0x66, 0x6D, 0x74, 0x20, 0x10, 0, 0, 0,
       0xFE, 0xFF, 2, 0, 0x80, 0xBB, 0, 0, 0, 0xEE, 2, 0, 4, 0, 0x10, 0,
       0x64, 0x61, 0x74, 0x61, 0xFF, 0xFF, 0xFF, 0xFF, 7, 7, 7, 7]] =
   (\<lparr> ps_buf =
        [0x52, 0x49, 0x46, 0x46, 0xFF, 0xFF, 0xFF, 0xFF, 0x57, 0x41, 0x56, 0x45,
         0x66, 0x6D, 0x74, 0x20, 0x10, 0, 0, 0,
         0xFE, 0xFF, 2, 0, 0x80, 0xBB, 0, 0, 0, 0xEE, 2, 0, 4, 0, 0x10, 0,
         0x64, 0x61, 0x74, 0x61, 0xFF, 0xFF, 0xFF, 0xFF, 7, 7, 7, 7],
      data_started = True,
      stream = Some \<lparr> samplerate = 48000, sink_channels = 2, dtype = ''int16'',
                      sink_device = None, blocksize = 0, written = [[7, 7, 7, 7]],
                      stopped = True \<rparr>,
      header_dump = None \<rparr>,
    None)"
  by (simp add: play_stream_def play_stream_body_def play_init_def play_chunk_def
      extensible_wav_scan Let_def or_1_def fmt_get_resolved_format_def dtype_for_def)

theorem extensible_defaults_to_pcm_witness:
  "snd (play_chunk MAX_HEADER_BYTES None play_init
     [0x52, 0x49, 0x46, 0x46, 0xFF, 0xFF, 0xFF, 0xFF, 0x57, 0x41, 0x56, 0x45,
      0x66, 0x6D, 0x74, 0x20, 0x10, 0, 0, 0,
      0xFE, 0xFF, 2, 0, 0x80, 0xBB, 0, 0, 0, 0xEE, 2, 0, 4, 0, 0x10, 0,
      0x64, 0x61, 0x74, 0x61, 0xFF, 0xFF, 0xFF, 0xFF, 7, 7, 7, 7]) = None \<and>
   map_option dtype (stream (fst (play_chunk MAX_HEADER_BYTES None play_init
     [0x52, 0x49, 0x46, 0x46, 0xFF, 0xFF, 0xFF, 0xFF, 0x57, 0x41, 0x56, 0x45,
      0x66, 0x6D, 0x74, 0x20, 0x10, 0, 0, 0,
      0xFE, 0xFF, 2, 0, 0x80, 0xBB, 0, 0, 0, 0xEE, 2, 0, 4, 0, 0x10, 0,
      0x64, 0x61, 0x74, 0x61, 0xFF, 0xFF, 0xFF, 0xFF, 7, 7, 7, 7]))) = Some ''int16''"
proof -
  let ?wav = "[0x52, 0x49, 0x46, 0x46, 0xFF, 0xFF, 0xFF, 0xFF, 0x57, 0x41, 0x56, 0x45,
      0x66, 0x6D, 0x74, 0x20, 0x10, 0, 0, 0,
      0xFE, 0xFF, 2, 0, 0x80, 0xBB, 0, 0, 0, 0xEE, 2, 0, 4, 0, 0x10, 0,
      0x64, 0x61, 0x74, 0x61, 0xFF, 0xFF, 0xFF, 0xFF, 7, 7, 7, 7] :: bytes"
  let ?f = "\<lparr> audio_format = 0xFFFE, channels = 2, rate = 48000, bits = 16, block_align = 4,
               byte_rate = 192000 \<rparr>"
  have a: "\<not> data_started play_init" by (simp add: play_init_def)
  have b: "?wav \<noteq> []" by simp
  have c: "scan_chunks_streaming (ps_buf play_init @ ?wav) =
      Inr ([(tag_fmt, 12, 16), (tag_data, 36, 4294967295)], Some ?f, Some 44)"
    using extensible_wav_scan by (simp add: play_init_def)
  have d: "audio_format ?f = 0xFFFE" by simp
  have e: "dtype_for 1 (bits ?f) = Inr ''int16''" by (simp add: dtype_for_def)
  show ?thesis
    using extensible_defaults_to_pcm [OF a b c d, of MAX_HEADER_BYTES None] e by simp
qed

section \<open>Claims about the relay\<close>

text \<open>
  The decoder on plain ASCII, on two-, three- and four-byte sequences, and on bytes
  that start no sequence, are cut short, encode a surrogate or are overlong.
\<close>

lemma utf8_decode_ignore_examples:
  "utf8_decode_ignore [] = []"
  "utf8_decode_ignore [0x6E, 0x6F] = [110, 111]"
  "utf8_decode_ignore [0xC3, 0xA9] = [233]"
  "utf8_decode_ignore [0xE2, 0x82, 0xAC] = [8364]"
  "utf8_decode_ignore [0xF0, 0x9F, 0x98, 0x80] = [128512]"
  "utf8_decode_ignore [0x61, 0xFF, 0x62] = [97, 98]"
  "utf8_decode_ignore [0xE2, 0x82] = []"
  "utf8_decode_ignore [0xED, 0xA0, 0x80] = []"
  "utf8_decode_ignore [0xC0, 0x80] = []"
  by (simp_all add: continuation_def second_of_three_def second_of_four_def)

lemma gen_loop_interrupted:
  assumes "caught e"
  shows "gen_loop sent chunks (Some e) =
     (filter (\<lambda>c. c \<noteq> []) chunks,
      if sent + length (concat chunks) = 0
      then HTTPException 502
             (DetailText (code_points (''Upstream stream error: '' @ class_name e)))
      else Finished)"
  using assms
  by (induction chunks arbitrary: sent) (auto simp: add.assoc)

lemma gen_loop_uncaught:
  assumes "\<not> caught e"
  shows "gen_loop sent chunks (Some e) = (filter (\<lambda>c. c \<noteq> []) chunks, Propagated e)"
  using assms
  by (induction chunks arbitrary: sent) auto

text \<open>
  What the generator does when the body of a 200 response is interrupted: for the six
  caught classes it raises the HTTP error 502 if no byte was yielded and returns after
  the yielded chunks otherwise; any other exception leaves the generator as it is. The
  status of the response itself is 200 whatever the upstream does.
\<close>

lemma relay_body_interrupted:
  assumes "status_code (client (build_payload DEFAULTS body)) = 200"
    and "body_failure (client (build_payload DEFAULTS body)) = Some e"
    and "caught e"
  shows "resp_body (tts_stream json decode DEFAULTS client body) =
     (filter (\<lambda>c. c \<noteq> []) (body_chunks (client (build_payload DEFAULTS body))),
      if length (concat (body_chunks (client (build_payload DEFAULTS body)))) = 0
      then HTTPException 502
             (DetailText (code_points (''Upstream stream error: '' @ class_name e)))
      else Finished)"
proof -
  let ?up = "client (build_payload DEFAULTS body)"
  have "resp_body (tts_stream json decode DEFAULTS client body) =
      gen_loop 0 (body_chunks ?up) (Some e)"
    using assms(1,2) by (simp add: tts_stream_def gen_def Let_def)
  also have "\<dots> = (filter (\<lambda>c. c \<noteq> []) (body_chunks ?up),
      if 0 + length (concat (body_chunks ?up)) = 0
      then HTTPException 502
             (DetailText (code_points (''Upstream stream error: '' @ class_name e)))
      else Finished)"
    using assms(3) by (rule gen_loop_interrupted)
  finally show ?thesis by (simp only: add_0)
qed

lemma relay_body_uncaught:
  assumes "status_code (client (build_payload DEFAULTS body)) = 200"
    and "body_failure (client (build_payload DEFAULTS body)) = Some e"
    and "\<not> caught e"
  shows "resp_body (tts_stream json decode DEFAULTS client body) =
     (filter (\<lambda>c. c \<noteq> []) (body_chunks (client (build_payload DEFAULTS body))),
      Propagated e)"
proof -
  let ?up = "client (build_payload DEFAULTS body)"
  have "resp_body (tts_stream json decode DEFAULTS client body) =
      gen_loop 0 (body_chunks ?up) (Some e)"
    using assms(1,2) by (simp add: tts_stream_def gen_def Let_def)
  then show ?thesis using gen_loop_uncaught [OF assms(3)] by simp
qed

lemma relay_status_always_200:
  "resp_status_code (tts_stream json decode DEFAULTS client body) = 200 \<and>
   resp_media_type (tts_stream json decode DEFAULTS client body) = ''audio/wav''"
  by (simp add: tts_stream_def Let_def)

text \<open>
  C5. The upstream answers 200 and its body is interrupted by \<open>ReadError\<close> before any
  byte: the response of \<open>tts_stream\<close> has the status 200, and the HTTP error 502
  is raised inside its body, by the generator, with nothing around it to turn it into
  the status of the response. An interruption by \<open>RemoteProtocolError\<close>, which the
  \<open>except\<close> clause does not list, is not turned into an HTTP error at all.
\<close>

theorem interrupted_before_output_answers_200:
  "resp_status_code (tts_stream (\<lambda>b. None :: unit option) utf8_decode_ignore
      \<lparr> def_language = ''ko'', def_style = ''happy'', def_model = ''sona_speech_1'',
        def_pitch_variance = 1 :: int, def_speed = 1 \<rparr>
      (\<lambda>p. \<lparr> status_code = 200, content_type = Some ''audio/wav'',
              body_chunks = [], body_failure = Some ReadError \<rparr>)
      \<lparr> req_text = ''hi'', req_language = None, req_style = None, req_model = None,
        req_pitch_variance = None, req_speed = None \<rparr>) = 200 \<and>
   resp_body (tts_stream (\<lambda>b. None :: unit option) utf8_decode_ignore
      \<lparr> def_language = ''ko'', def_style = ''happy'', def_model = ''sona_speech_1'',
        def_pitch_variance = 1 :: int, def_speed = 1 \<rparr>
      (\<lambda>p. \<lparr> status_code = 200, content_type = Some ''audio/wav'',
              body_chunks = [], body_failure = Some ReadError \<rparr>)
      \<lparr> req_text = ''hi'', req_language = None, req_style = None, req_model = None,
        req_pitch_variance = None, req_speed = None \<rparr>) =
     ([], HTTPException 502 (DetailText (code_points ''Upstream stream error: ReadError''))) \<and>
   resp_body (tts_stream (\<lambda>b. None :: unit option) utf8_decode_ignore
      \<lparr> def_language = ''ko'', def_style = ''happy'', def_model = ''sona_speech_1'',
        def_pitch_variance = 1 :: int, def_speed = 1 \<rparr>
      (\<lambda>p. \<lparr> status_code = 200, content_type = Some ''audio/wav'',
              body_chunks = [], body_failure = Some (OtherException ''RemoteProtocolError'') \<rparr>)
      \<lparr> req_text = ''hi'', req_language = None, req_style = None, req_model = None,
        req_pitch_variance = None, req_speed = None \<rparr>) =
     ([], Propagated (OtherException ''RemoteProtocolError''))"
  by (simp add: tts_stream_def gen_def Let_def)




section \<open>Sub-chunk sizes beyond the buffer\<close>

text \<open>
  C9 as amended. The scanner raises on no buffer. After a RIFF/WAVE header and complete
  sub-chunks, a sub-chunk with a tag other than \<open>data\<close> whose size field asks for more
  payload than the buffer holds makes the scanner return without a data offset: it
  waits for more bytes, whatever the size is.
\<close>

theorem oversized_chunk_waits:
  assumes "riff_header h"
    and "\<forall>c \<in> set cs. complete_chunk c \<and> chunk_tag c \<noteq> tag_data"
    and "length cid = 4" and "cid \<noteq> tag_data"
    and "unpack_I sz = Inr n" and "length payload < n"
  shows "(\<exists>found f.
      scan_chunks_streaming (h @ concat (map chunk_bytes cs) @ cid @ sz @ payload) =
        Inr (found, f, None)) \<and>
     (\<forall>buf e. scan_chunks_streaming buf \<noteq> Inl e)"
proof -
  let ?C = "concat (map chunk_bytes cs)"
  let ?post = "cid @ sz @ payload"
  let ?B = "h @ ?C @ ?post"
  obtain fmt' found' where
    walk: "scan_loop ?B (length h) None [] = scan_loop ?B (length h + length ?C) fmt' found'"
    using scan_loop_chunks [OF assms(2), of h ?post None "[]"] by blast
  let ?i = "length h + length ?C"
  have lsz: "length sz = 4" using assms(5) by (rule unpack_I_Inr_length)
  have B: "?B = (h @ ?C) @ cid @ sz @ payload" by simp
  have s1: "slice ?B ?i (?i + 4) = cid"
    unfolding B using assms(3) by (simp add: slice_def)
  have s2: "slice ?B (?i + 4) (?i + 8) = sz"
    unfolding B using assms(3) lsz by (simp add: slice_def)
  have le: "?i + 8 \<le> length ?B" using assms(3) lsz by simp
  have gt: "length ?B < ?i + 8 + n" using assms(3,6) lsz by simp
  have "scan_body b ?i fmt' found' = Return (found', fmt', None)"
    if "slice b ?i (?i + 4) = cid" and "slice b (?i + 4) (?i + 8) = sz"
      and "?i + 8 \<le> length b" and "length b < ?i + 8 + n" for b
    using that assms(4,5) by (simp add: scan_body_def Let_def)
  from this [OF s1 s2 le gt]
  have "scan_body ?B ?i fmt' found' = Return (found', fmt', None)" .
  then have "scan_loop ?B ?i fmt' found' = Inr (found', fmt', None)"
    using le by (subst scan_loop.simps) simp
  then have "scan_chunks_streaming ?B = Inr (found', fmt', None)"
    using scan_header [OF assms(1), of "?C @ ?post"] walk by simp
  then show ?thesis using scan_no_raise by blast
qed

theorem oversized_chunk_waits_witness:
  "\<exists>found f.
     scan_chunks_streaming
       ([0x52, 0x49, 0x46, 0x46, 0x24, 0, 0, 0, 0x57, 0x41, 0x56, 0x45] @
        concat (map chunk_bytes []) @
        [0x4C, 0x49, 0x53, 0x54] @ [0xFF, 0xFF, 0xFF, 0xFF] @ [1, 2, 3]) =
       Inr (found, f, None)"
proof -
  let ?h = "[0x52, 0x49, 0x46, 0x46, 0x24, 0, 0, 0, 0x57, 0x41, 0x56, 0x45] :: bytes"
  have h: "riff_header ?h"
    by (simp add: riff_header_def slice_def tag_RIFF_def tag_WAVE_def)
  have cs: "\<forall>c \<in> set ([] :: chunk list). complete_chunk c \<and> chunk_tag c \<noteq> tag_data"
    by simp
  have c: "length ([0x4C, 0x49, 0x53, 0x54] :: bytes) = 4" by simp
  have d: "([0x4C, 0x49, 0x53, 0x54] :: bytes) \<noteq> tag_data" by (simp add: tag_data_def)
  have n: "unpack_I [0xFF, 0xFF, 0xFF, 0xFF] = Inr 4294967295" by simp
  have l: "length ([1, 2, 3] :: bytes) < 4294967295" by simp
  show ?thesis
    using oversized_chunk_waits [OF h cs c d n l] by blast
qed

text \<open>
  C9 as stated fails: a \<open>LIST\<close> sub-chunk at offset 12 with the size 0xFFFFFFFF, whose
  end 12 + 8 + size does not fit 32 bits, gives no error. The scanner returns no
  sub-chunk, no format and no data offset.
\<close>

theorem oversized_chunk_no_error:
  "scan_chunks_streaming
     [0x52, 0x49, 0x46, 0x46, 0x24, 0, 0, 0, 0x57, 0x41, 0x56, 0x45,
      0x4C, 0x49, 0x53, 0x54, 0xFF, 0xFF, 0xFF, 0xFF, 1, 2, 3] = Inr ([], None, None) \<and>
   unpack_I [0xFF, 0xFF, 0xFF, 0xFF] = Inr 4294967295 \<and>
   (2 :: nat) ^ 32 \<le> 12 + 8 + 4294967295"
  by (simp add: scan_chunks_streaming_def scan_loop.simps scan_body_def slice_def
      tag_RIFF_def tag_WAVE_def tag_fmt_def tag_data_def)

section \<open>Claims about the format resolver and the payload\<close>

text \<open>
  C6. \<open>dtype_for\<close> maps (1, 8), (1, 16), (1, 24), (1, 32) and (3, 32) to int8, int16,
  int24, int32 and float32, and every other pair of code and bit depth to the
  unsupported-format error that carries that code and that bit depth.
\<close>

theorem dtype_for_table:
  "dtype_for 1 8 = Inr ''int8'' \<and> dtype_for 1 16 = Inr ''int16'' \<and>
   dtype_for 1 24 = Inr ''int24'' \<and> dtype_for 1 32 = Inr ''int32'' \<and>
   dtype_for 3 32 = Inr ''float32'' \<and>
   (\<forall>code bts. (code, bts) \<notin> {(1, 8), (1, 16), (1, 24), (1, 32), (3, 32)}
      \<longrightarrow> dtype_for code bts = Inl (UnsupportedFormat code bts))"
  by (simp add: dtype_for_def)

theorem dtype_for_table_witness:
  "dtype_for 1 64 = Inl (UnsupportedFormat 1 64) \<and> dtype_for 7 16 = Inl (UnsupportedFormat 7 16)"
  using dtype_for_table by simp

text \<open>
  C10. In the payload of \<open>build_payload\<close>, \<open>voice_settings.pitch_variance\<close> is the
  request's value when it is not \<open>None\<close> and the default otherwise, and so is
  \<open>voice_settings.speed\<close>: the nested conditional equals the plain fallback.
\<close>

theorem build_payload_voice_settings:
  "vs_pitch_variance (pay_voice_settings (build_payload DEFAULTS body)) =
     (case req_pitch_variance body of None \<Rightarrow> def_pitch_variance DEFAULTS | Some v \<Rightarrow> v) \<and>
   vs_speed (pay_voice_settings (build_payload DEFAULTS body)) =
     (case req_speed body of None \<Rightarrow> def_speed DEFAULTS | Some v \<Rightarrow> v)"
  by (simp add: build_payload_def split: option.splits)

end
